theory Spec2Isabelle
  imports Main "HOL-Library.Sublist" "HOL-Library.Multiset" "HOL-Library.AList"
begin

section \<open>Python string primitives used by freq.py\<close>

text \<open>
  Strings are lists of 8-bit characters. The text read from a history file is taken to be
  ASCII: Python's \<open>str.isspace\<close>, \<open>str.isdigit\<close>, \<open>\d\<close> and \<open>int\<close> also accept
  non-ASCII code points, which this development does not cover. A file is the list of the
  lines its iterator yields (each line may still carry its line terminator).
\<close>

definition py_isspace :: "char \<Rightarrow> bool" where
  \<comment> \<open>the ASCII characters for which \<open>str.isspace\<close> holds: TAB, LF, VT, FF, CR, FS, GS, RS, US, SPACE\<close>
  "py_isspace c = (let n = (of_char c :: nat) in (9 \<le> n \<and> n \<le> 13) \<or> (28 \<le> n \<and> n \<le> 32))"

definition is_digit :: "char \<Rightarrow> bool" where
  "is_digit c = (let n = (of_char c :: nat) in 48 \<le> n \<and> n \<le> 57)"

definition py_isdigit :: "string \<Rightarrow> bool" where
  \<comment> \<open>\<open>s.isdigit()\<close>: at least one character, all of them digits\<close>
  "py_isdigit s = (s \<noteq> [] \<and> list_all is_digit s)"

definition digit_val :: "char \<Rightarrow> int" where
  "digit_val c = int (of_char c) - 48"

definition digits_value :: "string \<Rightarrow> int" where
  \<comment> \<open>the number that a string of decimal digits denotes\<close>
  "digits_value s = foldl (\<lambda>a c. 10 * a + digit_val c) 0 s"

datatype py_error = IndexError | ValueError

definition max_str_digits :: nat where
  \<comment> \<open>the default of \<open>sys.int_max_str_digits\<close>\<close>
  "max_str_digits = 4300"

definition py_int :: "string \<Rightarrow> py_error + int" where
  \<comment> \<open>\<open>int(s)\<close> on a string of decimal digits: with more digits than the limit (leading
      zeros count) it raises \<open>ValueError\<close>\<close>
  "py_int s = (if length s > max_str_digits then Inl ValueError else Inr (digits_value s))"

fun run_lines :: "('s \<Rightarrow> string \<Rightarrow> py_error + 's) \<Rightarrow> 's \<Rightarrow> string list \<Rightarrow> py_error + 's" where
  \<comment> \<open>a loop over the lines of a file inside \<open>try\<close>: the first exception ends it\<close>
  "run_lines step st [] = Inr st"
| "run_lines step st (raw # rest) =
     (case step st raw of Inl e \<Rightarrow> Inl e | Inr st' \<Rightarrow> run_lines step st' rest)"

definition py_strip :: "string \<Rightarrow> string" where
  \<comment> \<open>\<open>s.strip()\<close>\<close>
  "py_strip s = rev (dropWhile py_isspace (rev (dropWhile py_isspace s)))"


function py_split :: "string \<Rightarrow> string list" where
  \<comment> \<open>\<open>s.split()\<close>: the maximal runs of non-whitespace characters\<close>
  "py_split s =
     (case dropWhile py_isspace s of
        [] \<Rightarrow> []
      | c # cs \<Rightarrow> takeWhile (\<lambda>x. \<not> py_isspace x) (c # cs)
                 # py_split (dropWhile (\<lambda>x. \<not> py_isspace x) (c # cs)))"
  by pat_completeness auto
termination
proof (relation "measure length")
  show "wf (measure length)" by simp
next
  fix s :: string and c cs
  assume h: "dropWhile py_isspace s = c # cs"
  then have c: "\<not> py_isspace c"
    by (metis hd_dropWhile list.distinct(1) list.sel(1))
  have "length (c # cs) \<le> length s"
    using h length_dropWhile_le [of py_isspace s] by simp
  moreover have "length (dropWhile (\<lambda>x. \<not> py_isspace x) (c # cs)) \<le> length cs"
    using c length_dropWhile_le [of "\<lambda>x. \<not> py_isspace x" cs] by simp
  ultimately show "(dropWhile (\<lambda>x. \<not> py_isspace x) (c # cs), s) \<in> measure length"
    by simp
qed

declare py_split.simps [simp del]

definition py_startswith :: "string \<Rightarrow> string \<Rightarrow> bool" where
  \<comment> \<open>\<open>s.startswith(p)\<close>\<close>
  "py_startswith s p = (take (length p) s = p)"

definition py_endswith :: "string \<Rightarrow> string \<Rightarrow> bool" where
  \<comment> \<open>\<open>s.endswith(p)\<close>\<close>
  "py_endswith s p = (length p \<le> length s \<and> drop (length s - length p) s = p)"

fun py_find :: "string \<Rightarrow> string \<Rightarrow> nat option" where
  \<comment> \<open>\<open>s.find(sub)\<close>: the lowest index at which \<open>sub\<close> starts, \<open>None\<close> for Python's -1\<close>
  "py_find [] sub = (if sub = [] then Some 0 else None)"
| "py_find (c # cs) sub =
     (if py_startswith (c # cs) sub then Some 0 else map_option Suc (py_find cs sub))"

definition py_in :: "string \<Rightarrow> string \<Rightarrow> bool" where
  \<comment> \<open>\<open>sub in s\<close>\<close>
  "py_in sub s = (py_find s sub \<noteq> None)"

fun py_join :: "string \<Rightarrow> string list \<Rightarrow> string" where
  \<comment> \<open>\<open>sep.join(parts)\<close>\<close>
  "py_join sep [] = []"
| "py_join sep [p] = p"
| "py_join sep (p # ps) = p @ sep @ py_join sep ps"


section \<open>Regular expressions of the parsers\<close>

definition ts_at :: "string \<Rightarrow> bool" where
  \<comment> \<open>the pattern \<open>: (\d{10}):\<close> matches at the start of the string\<close>
  "ts_at s = (take 2 s = '': '' \<and> length (take 10 (drop 2 s)) = 10
              \<and> list_all is_digit (take 10 (drop 2 s)) \<and> take 1 (drop 12 s) = '':'')"

fun search_timestamp :: "string \<Rightarrow> string option" where
  \<comment> \<open>\<open>re.search(r': (\d{10}):', line)\<close>: group 1 of the leftmost match\<close>
  "search_timestamp [] = None"
| "search_timestamp (c # cs) =
     (if ts_at (c # cs) then Some (take 10 (drop 2 (c # cs))) else search_timestamp cs)"

definition header_at :: "string \<Rightarrow> nat option" where
  \<comment> \<open>the pattern \<open>: \d{10}:\d+;\<close> matches at the start of the string: the length of the match\<close>
  "header_at s =
     (if ts_at s then
        (let ds = takeWhile is_digit (drop 13 s); rest = dropWhile is_digit (drop 13 s)
         in if ds \<noteq> [] \<and> take 1 rest = '';'' then Some (13 + length ds + 1) else None)
      else None)"

fun search_header :: "string \<Rightarrow> nat option" where
  \<comment> \<open>\<open>re.search(r': \d{10}:\d+;', line)\<close>: the end offset of the leftmost match\<close>
  "search_header [] = None"
| "search_header (c # cs) =
     (case header_at (c # cs) of
        Some n \<Rightarrow> Some n
      | None \<Rightarrow> map_option Suc (search_header cs))"

section \<open>Records and filters\<close>

type_synonym history_record = "string \<times> int"

text \<open>
  A date filter is Python's \<open>None\<close> or a pair \<open>(start_time, end_time)\<close> whose components are
  integers or \<open>None\<close>; a command filter is \<open>None\<close> or a string. Python's truth test is
  written out: \<open>None\<close>, the integer 0 and the empty string are false, every pair is true.
\<close>

type_synonym date_filter = "int option \<times> int option"

definition before_start :: "int option \<Rightarrow> int \<Rightarrow> bool" where
  \<comment> \<open>\<open>start_time and timestamp < start_time\<close>\<close>
  "before_start start_time timestamp =
     (case start_time of None \<Rightarrow> False | Some s \<Rightarrow> s \<noteq> 0 \<and> timestamp < s)"

definition after_end :: "int option \<Rightarrow> int \<Rightarrow> bool" where
  \<comment> \<open>\<open>end_time and timestamp > end_time\<close>\<close>
  "after_end end_time timestamp =
     (case end_time of None \<Rightarrow> False | Some e \<Rightarrow> e \<noteq> 0 \<and> timestamp > e)"

definition matches_command :: "string \<Rightarrow> string \<Rightarrow> bool" where
  \<comment> \<open>\<open>command.startswith(name + " ") or command == name\<close>\<close>
  "matches_command command name = (py_startswith command (name @ '' '') \<or> command = name)"

definition filtered_out :: "string option \<Rightarrow> string \<Rightarrow> bool" where
  \<comment> \<open>\<open>command_filter\<close> is true (neither \<open>None\<close> nor empty) and the command does not match it\<close>
  "filtered_out command_filter command =
     (case command_filter of
        None \<Rightarrow> False
      | Some cf \<Rightarrow> cf \<noteq> [] \<and> \<not> matches_command command cf)"

section \<open>Command reduction\<close>

definition extract_command :: "string \<Rightarrow> bool \<Rightarrow> string" where
  "extract_command full_cmd full_command =
     (if full_cmd = [] then []
      else if full_command then full_cmd
      else
        (let command_parts = py_split full_cmd in
         if command_parts \<noteq> [] then
           (let first_word = hd command_parts in
            if py_endswith first_word [CHR 0x27]
               \<and> (py_isdigit first_word \<or> first_word \<in> set [''35'' @ [CHR 0x27], ''00;35'' @ [CHR 0x27]])
            then
              (if py_startswith full_cmd ''export'' then ''export''
               else
                 (case find (\<lambda>cmd. py_in cmd full_cmd) [''export'', ''echo'', ''set'', ''alias''] of
                    Some cmd \<Rightarrow> cmd
                  | None \<Rightarrow> ''malformed''))
            else first_word)
         else []))"

section \<open>The zsh parser\<close>

definition zsh_line :: "bool \<Rightarrow> date_filter option \<Rightarrow> string option
    \<Rightarrow> history_record list \<Rightarrow> string \<Rightarrow> py_error + history_record list" where
  \<comment> \<open>one iteration of the loop of \<open>parse_zsh_history\<close>; every \<open>continue\<close> returns the history unchanged\<close>
  "zsh_line full_command date_filter command_filter history raw =
     (let line = py_strip raw in
      if line = [] then Inr history
      else
        (case search_timestamp line of
           None \<Rightarrow> Inr history
         | Some grp \<Rightarrow>
            (case py_int grp of
               Inl e \<Rightarrow> Inl e
             | Inr timestamp \<Rightarrow> Inr (
             if (case date_filter of
                   None \<Rightarrow> False
                 | Some (start_time, end_time) \<Rightarrow>
                     before_start start_time timestamp \<or> after_end end_time timestamp)
             then history
             else
               (case (if CHR '';'' \<in> set line then
                        (case py_find line '':0;'' of
                           Some timestamp_end \<Rightarrow> Some (py_strip (drop (timestamp_end + 3) line))
                         | None \<Rightarrow>
                            (case search_header line of
                               Some match_end \<Rightarrow> Some (py_strip (drop match_end line))
                             | None \<Rightarrow> None))
                      else None) of
                  None \<Rightarrow> history
                | Some full_cmd \<Rightarrow>
                   (if full_cmd = [] then history
                    else
                      (let command = extract_command full_cmd full_command in
                       if command \<noteq> [] then
                         (if filtered_out command_filter command then history
                          else history @ [(command, timestamp)])
                       else history)))))))"

definition parse_zsh_history :: "string list \<Rightarrow> bool \<Rightarrow> date_filter option \<Rightarrow> string option
    \<Rightarrow> history_record list" where
  \<comment> \<open>\<open>except Exception: return []\<close>\<close>
  "parse_zsh_history lines full_command date_filter command_filter =
     (case run_lines (zsh_line full_command date_filter command_filter) [] lines of
        Inl e \<Rightarrow> []
      | Inr history \<Rightarrow> history)"

section \<open>The bash parser\<close>

text \<open>
  The state of the loop is the pending timestamp \<open>current_timestamp\<close> and the history built so
  far. The wall-clock reading \<open>int(datetime.datetime.now().timestamp())\<close> is the parameter
  \<open>now\<close>.
\<close>

type_synonym bash_state = "int option \<times> history_record list"

definition bash_line :: "int \<Rightarrow> bool \<Rightarrow> date_filter option \<Rightarrow> string option
    \<Rightarrow> bash_state \<Rightarrow> string \<Rightarrow> py_error + bash_state" where
  "bash_line now full_command date_filter command_filter st raw =
     (let current_timestamp = fst st; history = snd st; line = py_strip raw in
      if py_startswith line ''#'' \<and> length line > 1 \<and> py_isdigit (drop 1 line)
      then (case py_int (drop 1 line) of
              Inl e \<Rightarrow> Inl e
            | Inr t \<Rightarrow> Inr (Some t, history))
      else Inr (if line \<noteq> [] then
        (let timestamp = (case current_timestamp of
                            None \<Rightarrow> now
                          | Some t \<Rightarrow> if t \<noteq> 0 then t else now) in
         if (case date_filter of
               None \<Rightarrow> False
             | Some (start_time, end_time) \<Rightarrow> before_start start_time timestamp)
         then (None, history)
         else if (case date_filter of
               None \<Rightarrow> False
             | Some (start_time, end_time) \<Rightarrow> after_end end_time timestamp)
         then (None, history)
         else
           (let command = extract_command line full_command in
            if command \<noteq> [] then
              (if filtered_out command_filter command then (None, history)
               else (None, history @ [(command, timestamp)]))
            else (current_timestamp, history)))
      else (current_timestamp, history)))"

definition parse_bash_history :: "int \<Rightarrow> string list \<Rightarrow> bool \<Rightarrow> date_filter option
    \<Rightarrow> string option \<Rightarrow> history_record list" where
  \<comment> \<open>\<open>except Exception: return []\<close>\<close>
  "parse_bash_history now lines full_command date_filter command_filter =
     (case run_lines (bash_line now full_command date_filter command_filter) (None, []) lines of
        Inl e \<Rightarrow> []
      | Inr st \<Rightarrow> snd st)"

section \<open>Format detection and dispatch\<close>

definition detect_shell_type :: "string list \<Rightarrow> string" where
  \<comment> \<open>on a file that exists and can be read: the first eleven lines, stripped, decide\<close>
  "detect_shell_type file_lines =
     (let lines = map py_strip (take 11 file_lines) in
      if list_ex (\<lambda>line. header_at line \<noteq> None) lines then ''zsh''
      else if list_ex (\<lambda>line. py_startswith line ''#'' \<and> py_isdigit (drop 1 line)) lines
      then ''bash_timestamped''
      else ''bash'')"

definition parse_history :: "int \<Rightarrow> string list \<Rightarrow> bool \<Rightarrow> string option \<Rightarrow> date_filter option
    \<Rightarrow> string option \<Rightarrow> history_record list" where
  "parse_history now lines full_command shell_type date_filter command_filter =
     (let shell = (case shell_type of None \<Rightarrow> detect_shell_type lines | Some s \<Rightarrow> s) in
      if shell = ''zsh'' then parse_zsh_history lines full_command date_filter command_filter
      else if shell \<in> set [''bash'', ''bash_timestamped'']
      then parse_bash_history now lines full_command date_filter command_filter
      else [])"

section \<open>The filters of main\<close>

fun posthoc_date_filter :: "int option \<Rightarrow> int option \<Rightarrow> history_record list
    \<Rightarrow> history_record list" where
  \<comment> \<open>the loop of \<open>main\<close> that filters the parsed history by date\<close>
  "posthoc_date_filter start_time end_time [] = []"
| "posthoc_date_filter start_time end_time ((command, timestamp) # history) =
     (if before_start start_time timestamp then posthoc_date_filter start_time end_time history
      else if after_end end_time timestamp then posthoc_date_filter start_time end_time history
      else (command, timestamp) # posthoc_date_filter start_time end_time history)"

fun cmd_history :: "string \<Rightarrow> history_record list \<Rightarrow> history_record list" where
  \<comment> \<open>the loop of \<open>run_analysis\<close> that selects the records of the analysed command\<close>
  "cmd_history name [] = []"
| "cmd_history name ((command, timestamp) # history) =
     (if matches_command command name then (command, timestamp) # cmd_history name history
      else cmd_history name history)"

definition posthoc_filters :: "date_filter option \<Rightarrow> string option \<Rightarrow> history_record list
    \<Rightarrow> history_record list" where
  \<comment> \<open>both filters of \<open>main\<close> applied to a parsed history: the date loop when a date filter is
      given, the selection of \<open>run_analysis\<close> when \<open>args.command\<close> is true\<close>
  "posthoc_filters date_filter command_filter history =
     (let dated = (case date_filter of
                     None \<Rightarrow> history
                   | Some (start_time, end_time) \<Rightarrow> posthoc_date_filter start_time end_time history)
      in case command_filter of
           None \<Rightarrow> dated
         | Some name \<Rightarrow> if name \<noteq> [] then cmd_history name dated else dated)"

section \<open>The exclusion filter\<close>

fun filter_loop :: "string list \<Rightarrow> history_record list \<Rightarrow> py_error + history_record list" where
  \<comment> \<open>the loop of \<open>filter_commands\<close>; \<open>command.split()[0]\<close> raises on a command of whitespace only\<close>
  "filter_loop exclude_list [] = Inr []"
| "filter_loop exclude_list ((command, timestamp) # history) =
     (case (if command \<noteq> [] then
              (case py_split command of [] \<Rightarrow> Inl IndexError | w # _ \<Rightarrow> Inr w)
            else Inr command) of
        Inl e \<Rightarrow> Inl e
      | Inr base_cmd \<Rightarrow>
         (case filter_loop exclude_list history of
            Inl e \<Rightarrow> Inl e
          | Inr filtered \<Rightarrow>
             Inr (if base_cmd \<notin> set exclude_list then (command, timestamp) # filtered
                  else filtered)))"

definition filter_commands :: "history_record list \<Rightarrow> string list
    \<Rightarrow> py_error + history_record list" where
  "filter_commands history exclude_list =
     (if exclude_list = [] then Inr history else filter_loop exclude_list history)"

section \<open>Aliases\<close>








section \<open>Correlations\<close>

text \<open>
  \<open>correlations\<close> is a \<open>defaultdict(int)\<close>: an association list in insertion order, where
  \<open>correlations[k] += 1\<close> adds the key with count 1 when it is new. \<open>sorted\<close> is stable, as
  \<open>sort_key\<close> is; with \<open>reverse=True\<close> it sorts the reversed list and reverses the result,
  which keeps equal keys in their original order.
\<close>

fun bump :: "(string \<times> nat) list \<Rightarrow> string \<Rightarrow> (string \<times> nat) list" where
  "bump [] k = [(k, 1)]"
| "bump ((k', n) # rest) k = (if k' = k then (k', n + 1) # rest else (k', n) # bump rest k)"

definition neighbours :: "history_record list \<Rightarrow> string \<Rightarrow> int \<Rightarrow> nat \<Rightarrow> int
    \<Rightarrow> (string \<times> nat) list \<Rightarrow> (string \<times> nat) list" where
  \<comment> \<open>the inner loop over \<open>range(max(0, i-10), min(len(sorted_history), i+11))\<close>\<close>
  "neighbours sorted_history target_command window_seconds i timestamp correlations =
     foldl (\<lambda>corr j.
              if i \<noteq> j then
                (let other_cmd = fst (sorted_history ! j); other_time = snd (sorted_history ! j)
                 in if \<bar>other_time - timestamp\<bar> \<le> window_seconds \<and> other_cmd \<noteq> target_command
                    then bump corr other_cmd else corr)
              else corr)
       correlations
       [nat (max 0 (int i - 10)) ..< min (length sorted_history) (i + 11)]"

definition get_command_correlations :: "history_record list \<Rightarrow> string \<Rightarrow> int
    \<Rightarrow> (string \<times> nat) list" where
  "get_command_correlations history target_command window_seconds =
     (let sorted_history = sort_key snd history in
      foldl (\<lambda>corr (i, (cmd, timestamp)).
               if cmd = target_command
               then neighbours sorted_history target_command window_seconds i timestamp corr
               else corr)
        [] (enumerate 0 sorted_history))"

definition sorted_reverse :: "('a \<Rightarrow> nat) \<Rightarrow> 'a list \<Rightarrow> 'a list" where
  \<comment> \<open>\<open>sorted(xs, key=key, reverse=True)\<close>\<close>
  "sorted_reverse key xs = rev (sort_key key (rev xs))"

definition top_correlations :: "history_record list \<Rightarrow> string \<Rightarrow> (string \<times> nat) list" where
  \<comment> \<open>what \<open>show_command_analysis\<close> reports when \<open>show_correlations\<close> is set\<close>
  "top_correlations history target_command =
     (if length history > 1 then
        (let correlations = get_command_correlations history target_command 300 in
         if correlations \<noteq> [] then take 5 (sorted_reverse snd correlations) else [])
      else [])"

section \<open>Notions used to state the properties\<close>

definition keeps :: "date_filter option \<Rightarrow> string option \<Rightarrow> history_record \<Rightarrow> bool" where
  \<comment> \<open>the record passes the date filter and the command filter\<close>
  "keeps date_filter command_filter r =
     ((case date_filter of
         None \<Rightarrow> True
       | Some (s, e) \<Rightarrow> \<not> before_start s (snd r) \<and> \<not> after_end e (snd r))
      \<and> \<not> filtered_out command_filter (fst r))"

definition zsh_records :: "bool \<Rightarrow> date_filter option \<Rightarrow> string option \<Rightarrow> string
    \<Rightarrow> history_record list" where
  \<comment> \<open>the records that one line adds to the history of the zsh parser\<close>
  "zsh_records f df cf raw = (case zsh_line f df cf [] raw of Inl e \<Rightarrow> [] | Inr new \<Rightarrow> new)"

definition is_marker :: "string \<Rightarrow> bool" where
  \<comment> \<open>a stripped line that the bash parser reads as a timestamp marker\<close>
  "is_marker line = (py_startswith line ''#'' \<and> length line > 1 \<and> py_isdigit (drop 1 line))"

definition effective_timestamp :: "int \<Rightarrow> int option \<Rightarrow> int" where
  \<comment> \<open>\<open>current_timestamp if current_timestamp else now\<close>\<close>
  "effective_timestamp now pending =
     (case pending of None \<Rightarrow> now | Some t \<Rightarrow> if t \<noteq> 0 then t else now)"







definition tallied_pair :: "history_record list \<Rightarrow> string \<Rightarrow> int \<Rightarrow> nat \<Rightarrow> nat \<Rightarrow> bool" where
  \<comment> \<open>in the sorted sequence, position \<open>i\<close> holds the target and position \<open>j\<close> is a neighbour
      within index distance 10 and within the time window that holds another command\<close>
  "tallied_pair sh target w i j =
     (i < length sh \<and> j < length sh \<and> fst (sh ! i) = target \<and> j \<noteq> i
      \<and> i \<le> j + 10 \<and> j \<le> i + 10
      \<and> \<bar>snd (sh ! j) - snd (sh ! i)\<bar> \<le> w \<and> fst (sh ! j) \<noteq> target)"

definition tally :: "history_record list \<Rightarrow> string \<Rightarrow> int \<Rightarrow> string \<Rightarrow> nat" where
  \<comment> \<open>how often command \<open>c\<close> is such a neighbour of an occurrence of the target\<close>
  "tally sh target w c = card {(i, j). tallied_pair sh target w i j \<and> fst (sh ! j) = c}"

definition count_of :: "(string \<times> nat) list \<Rightarrow> string \<Rightarrow> nat" where
  \<comment> \<open>the count a tally table holds for a key, 0 when the key is absent\<close>
  "count_of al c = (case map_of al c of None \<Rightarrow> 0 | Some n \<Rightarrow> n)"

definition window :: "history_record list \<Rightarrow> nat \<Rightarrow> nat list" where
  \<comment> \<open>the positions the inner loop visits for position \<open>i\<close>\<close>
  "window sh i = [nat (max 0 (int i - 10)) ..< min (length sh) (i + 11)]"

definition neighbour_keys :: "history_record list \<Rightarrow> string \<Rightarrow> int \<Rightarrow> nat \<Rightarrow> string list" where
  \<comment> \<open>the commands the inner loop tallies for position \<open>i\<close>, in order\<close>
  "neighbour_keys sh target w i =
     map (\<lambda>j. fst (sh ! j))
       (filter (\<lambda>j. i \<noteq> j \<and> \<bar>snd (sh ! j) - snd (sh ! i)\<bar> \<le> w \<and> fst (sh ! j) \<noteq> target)
          (window sh i))"

section \<open>Strings\<close>

lemma py_startswith_prefix: "py_startswith s p \<longleftrightarrow> prefix p s"
proof
  assume "py_startswith s p"
  then have "s = p @ drop (length p) s"
    by (metis append_take_drop_id py_startswith_def)
  then show "prefix p s" by (metis prefixI)
next
  assume "prefix p s"
  then show "py_startswith s p" by (auto simp: prefix_def py_startswith_def)
qed

lemma py_find_None: "py_find s sub = None \<longleftrightarrow> \<not> sublist sub s"
proof (induction s)
  case Nil
  show ?case by simp
next
  case (Cons c cs)
  show ?case
  proof (cases sub)
    case Nil
    then show ?thesis by (simp add: py_startswith_def)
  next
    case (Cons x xs)
    then show ?thesis
      using Cons.IH by (simp add: py_startswith_prefix sublist_Cons_right)
  qed
qed

lemma py_in_sublist: "py_in sub s \<longleftrightarrow> sublist sub s"
  by (simp add: py_in_def py_find_None)

lemma py_find_Some:
  "py_find s sub = Some i \<Longrightarrow> i \<le> length s \<and> prefix sub (drop i s)
     \<and> (\<forall>j < i. \<not> prefix sub (drop j s))"
proof (induction s arbitrary: i)
  case Nil
  then show ?case by (simp split: if_splits)
next
  case (Cons c cs)
  show ?case
  proof (cases "py_startswith (c # cs) sub")
    case True
    then show ?thesis using Cons.prems by (simp add: py_startswith_prefix)
  next
    case False
    then obtain k where k: "py_find cs sub = Some k" "i = Suc k"
      using Cons.prems by auto
    have ih: "k \<le> length cs \<and> prefix sub (drop k cs) \<and> (\<forall>j < k. \<not> prefix sub (drop j cs))"
      using Cons.IH [OF k(1)] .
    have "\<not> prefix sub (drop j (c # cs))" if "j < i" for j
    proof (cases j)
      case 0
      then show ?thesis using False by (simp add: py_startswith_prefix)
    next
      case (Suc j')
      then show ?thesis using ih that k(2) by simp
    qed
    then show ?thesis using ih k(2) by simp
  qed
qed

lemma dropWhile_hd_not: "dropWhile P xs \<noteq> [] \<Longrightarrow> \<not> P (hd (dropWhile P xs))"
  by (simp add: hd_dropWhile)

lemma py_strip_has_nonspace:
  assumes "py_strip raw \<noteq> []"
  shows "\<exists>c \<in> set (py_strip raw). \<not> py_isspace c"
proof -
  let ?d = "dropWhile py_isspace (rev (dropWhile py_isspace raw))"
  have ne: "?d \<noteq> []" using assms by (simp add: py_strip_def)
  then have "\<not> py_isspace (hd ?d)" by (rule dropWhile_hd_not)
  moreover have "hd ?d \<in> set ?d" using ne by simp
  ultimately show ?thesis by (auto simp: py_strip_def)
qed

lemma py_split_nonempty:
  assumes "\<exists>c \<in> set s. \<not> py_isspace c"
  shows "py_split s \<noteq> [] \<and> hd (py_split s) \<noteq> []"
proof -
  have "dropWhile py_isspace s \<noteq> []" using assms by (simp add: dropWhile_eq_Nil_conv)
  then obtain c cs where d: "dropWhile py_isspace s = c # cs"
    by (cases "dropWhile py_isspace s") auto
  then have "\<not> py_isspace c" by (metis hd_dropWhile list.distinct(1) list.sel(1))
  then show ?thesis using d by (simp add: py_split.simps [of s])
qed

lemma extract_command_nonempty:
  assumes "\<exists>c \<in> set s. \<not> py_isspace c"
  shows "extract_command s f \<noteq> []"
proof -
  have s: "s \<noteq> []" using assms by auto
  have sp: "py_split s \<noteq> []" "hd (py_split s) \<noteq> []" using py_split_nonempty [OF assms] by auto
  show ?thesis
  proof (cases f)
    case True then show ?thesis using s by (simp add: extract_command_def)
  next
    case False
    have "(case find (\<lambda>cmd. py_in cmd s) [''export'', ''echo'', ''set'', ''alias''] of
             Some cmd \<Rightarrow> cmd | None \<Rightarrow> ''malformed'') \<noteq> []"
      by (simp split: option.splits)
    then show ?thesis using False s sp
      by (simp add: extract_command_def Let_def del: find.simps)
  qed
qed

lemma extract_command_strip:
  "py_strip raw \<noteq> [] \<Longrightarrow> extract_command (py_strip raw) f \<noteq> []"
  by (rule extract_command_nonempty) (rule py_strip_has_nonspace)

section \<open>The filters as list filters\<close>

lemma posthoc_date_filter_filter:
  "posthoc_date_filter s e h = filter (\<lambda>(c, t). \<not> before_start s t \<and> \<not> after_end e t) h"
  by (induction s e h rule: posthoc_date_filter.induct) simp_all

lemma cmd_history_filter: "cmd_history name h = filter (\<lambda>(c, t). matches_command c name) h"
  by (induction h) auto

lemma posthoc_filters_filter: "posthoc_filters df cf h = filter (keeps df cf) h"
  by (auto simp: posthoc_filters_def keeps_def posthoc_date_filter_filter cmd_history_filter
      filtered_out_def split: option.splits intro!: filter_cong)

lemma posthoc_filters_append:
  "posthoc_filters df cf (h @ h') = posthoc_filters df cf h @ posthoc_filters df cf h'"
  by (simp add: posthoc_filters_filter)

lemma posthoc_filters_none: "posthoc_filters None None h = h"
  by (simp add: posthoc_filters_def)

section \<open>Early filtering in the parsers\<close>

lemma search_timestamp_length: "search_timestamp line = Some grp \<Longrightarrow> length grp = 10"
  by (induction line) (auto simp: ts_at_def split: if_splits)

lemma py_int_group: "search_timestamp line = Some grp \<Longrightarrow> py_int grp = Inr (digits_value grp)"
  using search_timestamp_length [of line grp] by (simp add: py_int_def max_str_digits_def)

lemma zsh_line_Inr: "zsh_line f df cf h raw = Inr (h @ zsh_records f df cf raw)"
  by (simp add: zsh_line_def zsh_records_def Let_def py_int_group split: option.splits)

lemma zsh_records_filters:
  "zsh_records f df cf raw = posthoc_filters df cf (zsh_records f None None raw)"
  by (auto simp: zsh_line_def zsh_records_def Let_def py_int_group posthoc_filters_filter
      keeps_def filtered_out_def split: option.splits)

lemma run_lines_zsh:
  "run_lines (zsh_line f df cf) h lines = Inr (h @ concat (map (zsh_records f df cf) lines))"
  by (induction lines arbitrary: h) (simp_all add: zsh_line_Inr)

lemma parse_zsh_records:
  "parse_zsh_history lines f df cf = concat (map (zsh_records f df cf) lines)"
  by (simp add: parse_zsh_history_def run_lines_zsh)

lemma zsh_early_filter:
  "parse_zsh_history lines f df cf = posthoc_filters df cf (parse_zsh_history lines f None None)"
proof -
  have "concat (map (zsh_records f df cf) lines)
      = filter (keeps df cf) (concat (map (zsh_records f None None) lines))"
  proof (induction lines)
    case Nil
    show ?case by simp
  next
    case (Cons raw lines)
    have "zsh_records f df cf raw = filter (keeps df cf) (zsh_records f None None raw)"
      unfolding posthoc_filters_filter [symmetric] by (rule zsh_records_filters)
    then show ?case using Cons.IH by simp
  qed
  then show ?thesis by (simp add: parse_zsh_records posthoc_filters_filter)
qed

lemma bash_line_cases:
  "bash_line now f df cf (p, h) raw =
     (if is_marker (py_strip raw) then
        (if length (drop 1 (py_strip raw)) > max_str_digits then Inl ValueError
         else Inr (Some (digits_value (drop 1 (py_strip raw))), h))
      else if py_strip raw = [] then Inr (p, h)
      else Inr (None, h @ posthoc_filters df cf
                    [(extract_command (py_strip raw) f, effective_timestamp now p)]))"
  using extract_command_strip [of raw f]
  by (auto simp: bash_line_def Let_def is_marker_def effective_timestamp_def py_int_def
      posthoc_filters_filter keeps_def split: option.splits)

lemma run_lines_bash:
  "run_lines (bash_line now f df cf) (p, posthoc_filters df cf h) lines
     = (case run_lines (bash_line now f None None) (p, h) lines of
          Inl e \<Rightarrow> Inl e
        | Inr st \<Rightarrow> Inr (fst st, posthoc_filters df cf (snd st)))"
proof (induction lines arbitrary: p h)
  case Nil
  show ?case by simp
next
  case (Cons raw lines)
  show ?case
    by (simp add: bash_line_cases Cons.IH posthoc_filters_none posthoc_filters_append [symmetric])
qed

lemma bash_early_filter:
  "parse_bash_history now lines f df cf
     = posthoc_filters df cf (parse_bash_history now lines f None None)"
  using run_lines_bash [of now f df cf None "[]" lines]
  by (simp add: parse_bash_history_def posthoc_filters_filter split: sum.splits)

text \<open>
  C3. For every file, shell type, mode, date filter and command filter, and a fixed
  wall-clock reading, parsing with the early filters gives exactly the records that parsing
  without filters and then applying the date filter and the command filter of \<open>main\<close> gives.
\<close>

theorem early_filters_equal_posthoc:
  "parse_history now lines full shell df cf
     = posthoc_filters df cf (parse_history now lines full shell None None)"
  using zsh_early_filter [of lines full df cf] bash_early_filter [of now lines full df cf]
  by (simp add: parse_history_def Let_def posthoc_filters_filter)

theorem early_filters_equal_posthoc_witness:
  "parse_history 1700000500
     ['': 1700000000:0;git status'', '': 1700000100:0;ls -la'', '': 1700099999:7;git log'']
     True None (Some (Some 1700000000, Some 1700086400)) (Some ''git'')
   = [(''git status'', 1700000000)]
   \<and> posthoc_filters (Some (Some 1700000000, Some 1700086400)) (Some ''git'')
       [(''git status'', 1700000000), (''ls -la'', 1700000100), (''git log'', 1700099999)]
     = [(''git status'', 1700000000)]
   \<and> parse_history 1700000500 [''#1700000000'', ''git status'', ''ls -la'', ''#1700099999'', ''git log'']
       True (Some ''bash'') (Some (Some 1700000000, Some 1700086400)) (Some ''git'')
     = [(''git status'', 1700000000)]"
proof -
  have a: "parse_history 1700000500
     ['': 1700000000:0;git status'', '': 1700000100:0;ls -la'', '': 1700099999:7;git log'']
     True None None None
     = [(''git status'', 1700000000), (''ls -la'', 1700000100), (''git log'', 1700099999)]"
    by code_simp
  have b: "posthoc_filters (Some (Some 1700000000, Some 1700086400)) (Some ''git'')
       [(''git status'', 1700000000), (''ls -la'', 1700000100), (''git log'', 1700099999)]
     = [(''git status'', 1700000000)]"
    by code_simp
  have c: "parse_history 1700000500 [''#1700000000'', ''git status'', ''ls -la'', ''#1700099999'', ''git log'']
       True (Some ''bash'') None None
     = [(''git status'', 1700000000), (''ls -la'', 1700000500), (''git log'', 1700099999)]"
    by code_simp
  have d: "posthoc_filters (Some (Some 1700000000, Some 1700086400)) (Some ''git'')
       [(''git status'', 1700000000), (''ls -la'', 1700000500), (''git log'', 1700099999)]
     = [(''git status'', 1700000000)]"
    by code_simp
  show ?thesis
    using early_filters_equal_posthoc [of 1700000500
        "['': 1700000000:0;git status'', '': 1700000100:0;ls -la'', '': 1700099999:7;git log'']"
        True None "Some (Some 1700000000, Some 1700086400)" "Some ''git''"]
      early_filters_equal_posthoc [of 1700000500
        "[''#1700000000'', ''git status'', ''ls -la'', ''#1700099999'', ''git log'']"
        True "Some ''bash''" "Some (Some 1700000000, Some 1700086400)" "Some ''git''"]
    by (simp only: a b c d simp_thms)
qed

section \<open>Date bounds\<close>

lemma before_start_zero: "before_start (Some 0) t = before_start None t"
  by (simp add: before_start_def)

lemma after_end_zero: "after_end (Some 0) t = after_end None t"
  by (simp add: after_end_def)

lemma zsh_line_zero_start:
  "zsh_line f (Some (Some 0, e)) cf = zsh_line f (Some (None, e)) cf"
  by (rule ext)+ (simp add: zsh_line_def Let_def before_start_zero cong: option.case_cong sum.case_cong)

lemma zsh_line_zero_end:
  "zsh_line f (Some (s, Some 0)) cf = zsh_line f (Some (s, None)) cf"
  by (rule ext)+ (simp add: zsh_line_def Let_def after_end_zero cong: option.case_cong sum.case_cong)

lemma bash_line_zero_start:
  "bash_line now f (Some (Some 0, e)) cf = bash_line now f (Some (None, e)) cf"
  by (rule ext)+ (simp add: bash_line_def Let_def before_start_zero cong: option.case_cong sum.case_cong)

lemma bash_line_zero_end:
  "bash_line now f (Some (s, Some 0)) cf = bash_line now f (Some (s, None)) cf"
  by (rule ext)+ (simp add: bash_line_def Let_def after_end_zero cong: option.case_cong sum.case_cong)

lemma posthoc_zero_start: "posthoc_date_filter (Some 0) e h = posthoc_date_filter None e h"
  by (simp add: posthoc_date_filter_filter before_start_zero)

lemma posthoc_zero_end: "posthoc_date_filter s (Some 0) h = posthoc_date_filter s None h"
  by (simp add: posthoc_date_filter_filter after_end_zero)

text \<open>
  C10. At the three date-filtering sites (the zsh parser, the bash parser and the loop of
  \<open>main\<close>) a bound of value 0 behaves as an absent bound: the result with start = 0 is the
  result with no start, and the result with end = 0 is the result with no end.
\<close>

theorem zero_bound_is_absent:
  "parse_zsh_history lines full (Some (Some 0, e)) cf
     = parse_zsh_history lines full (Some (None, e)) cf
   \<and> parse_zsh_history lines full (Some (s, Some 0)) cf
     = parse_zsh_history lines full (Some (s, None)) cf
   \<and> parse_bash_history now lines full (Some (Some 0, e)) cf
     = parse_bash_history now lines full (Some (None, e)) cf
   \<and> parse_bash_history now lines full (Some (s, Some 0)) cf
     = parse_bash_history now lines full (Some (s, None)) cf
   \<and> posthoc_date_filter (Some 0) e h = posthoc_date_filter None e h
   \<and> posthoc_date_filter s (Some 0) h = posthoc_date_filter s None h"
  by (simp add: parse_zsh_history_def parse_bash_history_def zsh_line_zero_start
      zsh_line_zero_end bash_line_zero_start bash_line_zero_end posthoc_zero_start
      posthoc_zero_end)

theorem zero_bound_is_absent_witness:
  "parse_zsh_history ['': 1700000000:0;ls''] False (Some (None, Some 0)) None
     = [(''ls'', 1700000000)]
   \<and> parse_bash_history 9 [''#1700000000'', ''ls''] False (Some (None, Some 0)) None
     = [(''ls'', 1700000000)]
   \<and> posthoc_date_filter None (Some 0) [(''ls'', 5)] = [(''ls'', 5)]
   \<and> posthoc_date_filter (Some 0) None [(''ls'', - 5)] = [(''ls'', - 5)]"
proof -
  have a: "parse_zsh_history ['': 1700000000:0;ls''] False (Some (None, None)) None
             = [(''ls'', 1700000000)]"
    by code_simp
  have b: "parse_bash_history 9 [''#1700000000'', ''ls''] False (Some (None, None)) None
             = [(''ls'', 1700000000)]"
    by code_simp
  have c: "posthoc_date_filter None None [(''ls'', 5)] = [(''ls'', 5)]"
    by code_simp
  have d: "posthoc_date_filter None None [(''ls'', - 5)] = [(''ls'', - 5)]"
    by code_simp
  show ?thesis
    using zero_bound_is_absent [of "['': 1700000000:0;ls'']" False None None None 9
        "[(''ls'', 5)]"]
      zero_bound_is_absent [of "[''#1700000000'', ''ls'']" False None None None 9
        "[(''ls'', - 5)]"]
    by (simp only: a b c d simp_thms)
qed

text \<open>
  C5. The date window should be closed at its start and open at its end. The end bound that
  \<open>parse_date_filter\<close> builds for a day is the first second of the next day, but all three
  sites drop a record only when its timestamp is greater than the end bound. With the bounds
  of 14 November 2023 (UTC), 1699920000 and 1700006400, a record stamped 1700006400 (midnight
  of 15 November) is kept by the loop of \<open>main\<close> and by both parsers, and the window of
  15 November keeps it too: the windows of adjacent days overlap. The half-open window
  drops it.
\<close>

theorem date_end_bound_is_kept:
  "posthoc_date_filter (Some 1699920000) (Some 1700006400) [(''ls'', 1700006400)]
     = [(''ls'', 1700006400)]
   \<and> posthoc_date_filter (Some 1700006400) (Some 1700092800) [(''ls'', 1700006400)]
     = [(''ls'', 1700006400)]
   \<and> parse_zsh_history ['': 1700006400:0;ls''] False
       (Some (Some 1699920000, Some 1700006400)) None = [(''ls'', 1700006400)]
   \<and> parse_bash_history 5 [''#1700006400'', ''ls''] False
       (Some (Some 1699920000, Some 1700006400)) None = [(''ls'', 1700006400)]
   \<and> filter (\<lambda>(c, t). 1699920000 \<le> t \<and> t < 1700006400) [(''ls'', 1700006400 :: int)] = []"
  by code_simp

section \<open>The zsh fast path\<close>

text \<open>
  C1. A valid zsh line \<open>: T:D;cmd\<close> should parse to the record of \<open>cmd\<close> and \<open>T\<close>, also when
  \<open>cmd\<close> contains \<open>:0;\<close>. The code cuts the line at the first \<open>:0;\<close> wherever it stands: on
  the line \<open>: 1700000000:5;echo a:0;b\<close> both modes record the command \<open>b\<close>, while the
  pattern \<open>: \d{10}:\d+;\<close> of the fallback path ends before \<open>echo a:0;b\<close>, whose reduction
  is \<open>echo\<close>.
\<close>

theorem zsh_fast_path_cuts_command:
  "parse_zsh_history ['': 1700000000:5;echo a:0;b''] True None None = [(''b'', 1700000000)]
   \<and> parse_zsh_history ['': 1700000000:5;echo a:0;b''] False None None = [(''b'', 1700000000)]
   \<and> map_option (\<lambda>n. drop n '': 1700000000:5;echo a:0;b'')
         (search_header '': 1700000000:5;echo a:0;b'') = Some ''echo a:0;b''
   \<and> extract_command ''echo a:0;b'' True = ''echo a:0;b''
   \<and> extract_command ''echo a:0;b'' False = ''echo''"
  by code_simp

section \<open>The pending timestamp of the bash parser\<close>

lemma is_marker_iff:
  "is_marker line \<longleftrightarrow> (\<exists>ds. line = CHR ''#'' # ds \<and> ds \<noteq> [] \<and> list_all is_digit ds)"
  by (cases line) (auto simp: is_marker_def py_startswith_def py_isdigit_def)

lemma run_lines_bash_blank:
  "\<forall>raw \<in> set blanks. py_strip raw = [] \<Longrightarrow>
     run_lines (bash_line now f df cf) (p, h) (blanks @ rest)
       = run_lines (bash_line now f df cf) (p, h) rest"
  by (induction blanks) (simp_all add: bash_line_cases is_marker_def py_startswith_def)

lemma bash_marker_then_command:
  assumes "is_marker (py_strip m)" and "length (drop 1 (py_strip m)) \<le> max_str_digits"
    and "digits_value (drop 1 (py_strip m)) \<noteq> 0"
    and "py_strip c \<noteq> []" and "\<not> is_marker (py_strip c)"
  shows "parse_bash_history now [m, c] f None None
           = [(extract_command (py_strip c) f, digits_value (drop 1 (py_strip m)))]"
  using assms
  by (simp add: parse_bash_history_def bash_line_cases posthoc_filters_none
      effective_timestamp_def)

lemma bash_command_without_marker:
  assumes "py_strip c \<noteq> []" and "\<not> is_marker (py_strip c)"
  shows "parse_bash_history now [c] f None None = [(extract_command (py_strip c) f, now)]"
  using assms
  by (simp add: parse_bash_history_def bash_line_cases posthoc_filters_none
      effective_timestamp_def)

lemma bash_long_marker_discards_file:
  assumes "is_marker (py_strip m)" and "length (drop 1 (py_strip m)) > max_str_digits"
  shows "parse_bash_history now (pre @ m # rest) f df cf = []"
proof -
  have "\<exists>e. run_lines (bash_line now f df cf) st (pre @ m # rest) = Inl e" for st
  proof (induction pre arbitrary: st)
    case Nil
    obtain p h where "st = (p, h)" by (cases st)
    then show ?case using assms by (simp add: bash_line_cases)
  next
    case (Cons raw pre)
    show ?case
    proof (cases "bash_line now f df cf st raw")
      case (Inl e)
      then show ?thesis by simp
    next
      case (Inr st')
      then show ?thesis using Cons.IH [of st'] by simp
    qed
  qed
  then obtain e where "run_lines (bash_line now f df cf) (None, []) (pre @ m # rest) = Inl e"
    by blast
  then show ?thesis by (simp add: parse_bash_history_def)
qed

lemma bash_transitions:
  "(py_strip raw = CHR ''#'' # ds \<and> ds \<noteq> [] \<and> list_all is_digit ds
      \<and> length ds \<le> max_str_digits \<longrightarrow>
      bash_line now f df cf (p, h) raw = Inr (Some (digits_value ds), h))
   \<and> (py_strip raw = CHR ''#'' # ds \<and> ds \<noteq> [] \<and> list_all is_digit ds
      \<and> length ds > max_str_digits \<longrightarrow>
      bash_line now f df cf (p, h) raw = Inl ValueError)
   \<and> (py_strip raw = [] \<longrightarrow> bash_line now f df cf (p, h) raw = Inr (p, h))
   \<and> (py_strip raw \<noteq> [] \<and> \<not> is_marker (py_strip raw) \<and> t \<noteq> 0 \<longrightarrow>
        bash_line now f df cf (Some t, h) raw
          = Inr (None, if keeps df cf (extract_command (py_strip raw) f, t)
                       then h @ [(extract_command (py_strip raw) f, t)] else h))
   \<and> (py_strip raw \<noteq> [] \<and> \<not> is_marker (py_strip raw) \<and> (p = None \<or> p = Some 0) \<longrightarrow>
        bash_line now f df cf (p, h) raw
          = Inr (None, if keeps df cf (extract_command (py_strip raw) f, now)
                       then h @ [(extract_command (py_strip raw) f, now)] else h))"
proof -
  have m: "is_marker (py_strip raw)"
    if "py_strip raw = CHR ''#'' # ds \<and> ds \<noteq> [] \<and> list_all is_digit ds"
    using that is_marker_iff by blast
  have 1: "bash_line now f df cf (p, h) raw = Inr (Some (digits_value ds), h)"
    if "py_strip raw = CHR ''#'' # ds \<and> ds \<noteq> [] \<and> list_all is_digit ds
      \<and> length ds \<le> max_str_digits"
    using that m by (simp add: bash_line_cases)
  have 2: "bash_line now f df cf (p, h) raw = Inl ValueError"
    if "py_strip raw = CHR ''#'' # ds \<and> ds \<noteq> [] \<and> list_all is_digit ds
      \<and> length ds > max_str_digits"
    using that m by (simp add: bash_line_cases)
  have 3: "bash_line now f df cf (p, h) raw = Inr (p, h)" if "py_strip raw = []"
    using that by (simp add: bash_line_cases is_marker_def py_startswith_def)
  have 4: "bash_line now f df cf (Some t, h) raw
          = Inr (None, if keeps df cf (extract_command (py_strip raw) f, t)
                       then h @ [(extract_command (py_strip raw) f, t)] else h)"
    if "py_strip raw \<noteq> [] \<and> \<not> is_marker (py_strip raw) \<and> t \<noteq> 0"
    using that by (simp add: bash_line_cases posthoc_filters_filter effective_timestamp_def)
  have 5: "bash_line now f df cf (p, h) raw
          = Inr (None, if keeps df cf (extract_command (py_strip raw) f, now)
                       then h @ [(extract_command (py_strip raw) f, now)] else h)"
    if "py_strip raw \<noteq> [] \<and> \<not> is_marker (py_strip raw) \<and> (p = None \<or> p = Some 0)"
    using that by (auto simp: bash_line_cases posthoc_filters_filter effective_timestamp_def)
  show ?thesis using 1 2 3 4 5 by blast
qed

text \<open>
  C2. A marker \<open>#T\<close> followed by a command line should give the record with timestamp \<open>T\<close>
  for every \<open>T\<close>, 0 included. The code tests the pending timestamp for truth, so after the
  marker \<open>#0\<close> the command line takes the wall-clock reading instead of 0.
\<close>

theorem bash_zero_marker_uses_clock:
  "parse_bash_history now [''#0'', ''ls -la''] False None None = [(''ls'', now)]
   \<and> parse_bash_history now [''#0'', ''ls -la''] True None None = [(''ls -la'', now)]"
  by code_simp

text \<open>
  C6. A marker line should move the parser to the state Pending(T), and exactly the next
  command line should consume T. After the marker \<open>#0\<close> the state holds the pending value 0
  and no record is emitted, but the truth test on the pending value sends the next command
  line to the wall clock: the marker stamps no line at all, and the state is cleared all the
  same. A marker with another value, as \<open>#5\<close>, stamps exactly the next command line, across
  blank lines.
\<close>

theorem bash_zero_marker_stamps_no_line:
  "run_lines (bash_line now False None None) (None, []) [''#0''] = Inr (Some 0, [])
   \<and> run_lines (bash_line now False None None) (None, []) [''#0'', ''ls -la'']
       = Inr (None, [(''ls'', now)])
   \<and> parse_bash_history now [''#0'', '''', ''ls -la'', ''pwd''] False None None
       = [(''ls'', now), (''pwd'', now)]
   \<and> parse_bash_history now [''#5'', '''', ''ls -la'', ''pwd''] False None None
       = [(''ls'', 5), (''pwd'', now)]"
  by code_simp

section \<open>Malformed entries\<close>

lemma find_first_substring:
  "(case find (\<lambda>cmd. py_in cmd s) [''export'', ''echo'', ''set'', ''alias''] of
      Some cmd \<Rightarrow> cmd
    | None \<Rightarrow> ''malformed'')
   = (if sublist ''export'' s then ''export''
      else if sublist ''echo'' s then ''echo''
      else if sublist ''set'' s then ''set''
      else if sublist ''alias'' s then ''alias''
      else ''malformed'')"
  by (simp add: py_in_sublist)

text \<open>
  C7. In reduced-token mode, when the first whitespace-delimited token of the raw text ends
  with a single quote and is purely numeric or one of \<open>35'\<close> and \<open>00;35'\<close>, the result is
  \<open>export\<close> if the raw text begins with \<open>export\<close>, otherwise the first of \<open>export\<close>, \<open>echo\<close>,
  \<open>set\<close>, \<open>alias\<close> that occurs in the raw text, otherwise \<open>malformed\<close>.
\<close>

theorem extract_command_malformed:
  assumes "py_split s \<noteq> []"
    and "suffix [CHR 0x27] (hd (py_split s))"
    and "(hd (py_split s) \<noteq> [] \<and> list_all is_digit (hd (py_split s)))
         \<or> hd (py_split s) = ''35'' @ [CHR 0x27]
         \<or> hd (py_split s) = ''00;35'' @ [CHR 0x27]"
  shows "extract_command s False =
    (if prefix ''export'' s then ''export''
     else if sublist ''export'' s then ''export''
     else if sublist ''echo'' s then ''echo''
     else if sublist ''set'' s then ''set''
     else if sublist ''alias'' s then ''alias''
     else ''malformed'')"
proof -
  have ne: "s \<noteq> []" using assms(1) by (auto simp: py_split.simps [of "[]"])
  have e: "py_endswith (hd (py_split s)) [CHR 0x27]"
    using assms(2) by (auto simp: py_endswith_def suffix_def)
  have d: "py_isdigit (hd (py_split s))
      \<or> hd (py_split s) \<in> set [''35'' @ [CHR 0x27], ''00;35'' @ [CHR 0x27]]"
    using assms(3) by (auto simp: py_isdigit_def)
  show ?thesis
    using ne assms(1) e d find_first_substring [of s]
    by (simp add: extract_command_def Let_def py_startswith_prefix del: find.simps)
qed

theorem extract_command_malformed_witness:
  "extract_command (''00;35'' @ [CHR 0x27] @ '' alias ll=ls'') False = ''alias''
   \<and> extract_command (''00;35'' @ [CHR 0x27]) False = ''malformed''
   \<and> extract_command (''35'' @ [CHR 0x27] @ '' reset; echo hi'') False = ''echo''"
proof -
  let ?a = "''00;35'' @ [CHR 0x27] @ '' alias ll=ls''"
  let ?b = "''00;35'' @ [CHR 0x27]"
  let ?c = "''35'' @ [CHR 0x27] @ '' reset; echo hi''"
  have sa: "py_split ?a = [''00;35'' @ [CHR 0x27], ''alias'', ''ll=ls'']" by code_simp
  have sb: "py_split ?b = [''00;35'' @ [CHR 0x27]]" by code_simp
  have sc: "py_split ?c = [''35'' @ [CHR 0x27], ''reset;'', ''echo'', ''hi'']" by code_simp
  have suf: "suffix [CHR 0x27] (''00;35'' @ [CHR 0x27])" "suffix [CHR 0x27] (''35'' @ [CHR 0x27])"
    by (simp_all add: suffix_def)
  have ra: "(if prefix ''export'' ?a then ''export''
     else if sublist ''export'' ?a then ''export''
     else if sublist ''echo'' ?a then ''echo''
     else if sublist ''set'' ?a then ''set''
     else if sublist ''alias'' ?a then ''alias''
     else ''malformed'') = ''alias''"
    unfolding py_in_sublist [symmetric] py_startswith_prefix [symmetric] by code_simp
  have rb: "(if prefix ''export'' ?b then ''export''
     else if sublist ''export'' ?b then ''export''
     else if sublist ''echo'' ?b then ''echo''
     else if sublist ''set'' ?b then ''set''
     else if sublist ''alias'' ?b then ''alias''
     else ''malformed'') = ''malformed''"
    unfolding py_in_sublist [symmetric] py_startswith_prefix [symmetric] by code_simp
  have rc: "(if prefix ''export'' ?c then ''export''
     else if sublist ''export'' ?c then ''export''
     else if sublist ''echo'' ?c then ''echo''
     else if sublist ''set'' ?c then ''set''
     else if sublist ''alias'' ?c then ''alias''
     else ''malformed'') = ''echo''"
    unfolding py_in_sublist [symmetric] py_startswith_prefix [symmetric] by code_simp
  have a: "extract_command ?a False = ''alias''"
    using extract_command_malformed [of ?a] suf unfolding ra sa by simp
  have b: "extract_command ?b False = ''malformed''"
    using extract_command_malformed [of ?b] suf unfolding rb sb by simp
  have c: "extract_command ?c False = ''echo''"
    using extract_command_malformed [of ?c] suf unfolding rc sc by simp
  show ?thesis using a b c by simp
qed

section \<open>The exclusion filter\<close>

lemma filter_loop_filter:
  assumes "\<forall>r \<in> set h. py_split (fst r) \<noteq> []"
  shows "filter_loop ex h = Inr (filter (\<lambda>r. hd (py_split (fst r)) \<notin> set ex) h)"
  using assms
proof (induction h)
  case Nil
  show ?case by simp
next
  case (Cons r h)
  obtain command timestamp where r: "r = (command, timestamp)" by (cases r)
  have sp: "py_split command \<noteq> []" using Cons.prems r by simp
  then have ne: "command \<noteq> []" by (auto simp: py_split.simps [of "[]"])
  obtain w ws where w: "py_split command = w # ws" using sp by (cases "py_split command") auto
  have ih: "filter_loop ex h = Inr (filter (\<lambda>r. hd (py_split (fst r)) \<notin> set ex) h)"
    using Cons.IH Cons.prems by simp
  show ?case using r ne w ih by simp
qed

lemma has_token_iff: "py_split s \<noteq> [] \<longleftrightarrow> (\<exists>c \<in> set s. \<not> py_isspace c)"
proof
  assume "py_split s \<noteq> []"
  then have "dropWhile py_isspace s \<noteq> []"
    by (cases "dropWhile py_isspace s") (simp_all add: py_split.simps [of s])
  then show "\<exists>c \<in> set s. \<not> py_isspace c" by (simp add: dropWhile_eq_Nil_conv)
next
  assume "\<exists>c \<in> set s. \<not> py_isspace c"
  then show "py_split s \<noteq> []" using py_split_nonempty by blast
qed

lemma first_token_no_space:
  assumes "py_split s \<noteq> []"
  shows "\<forall>c \<in> set (hd (py_split s)). \<not> py_isspace c"
proof -
  obtain c cs where d: "dropWhile py_isspace s = c # cs"
    using assms by (cases "dropWhile py_isspace s") (simp_all add: py_split.simps [of s])
  then have "hd (py_split s) = takeWhile (\<lambda>x. \<not> py_isspace x) (c # cs)"
    by (simp add: py_split.simps [of s])
  then show ?thesis using set_takeWhileD by fastforce
qed

lemma extract_command_has_token:
  assumes "\<exists>c \<in> set s. \<not> py_isspace c"
  shows "py_split (extract_command s f) \<noteq> []"
proof (cases f)
  case True
  then show ?thesis using assms has_token_iff [of s] by (auto simp: extract_command_def)
next
  case False
  have s: "s \<noteq> []" using assms by auto
  have sp: "py_split s \<noteq> []" "hd (py_split s) \<noteq> []" using py_split_nonempty [OF assms] by auto
  have w: "py_split (hd (py_split s)) \<noteq> []"
    using first_token_no_space [OF sp(1)] sp(2) has_token_iff [of "hd (py_split s)"]
    by (cases "hd (py_split s)") auto
  have lit: "py_split ''export'' \<noteq> []" "py_split ''echo'' \<noteq> []" "py_split ''set'' \<noteq> []"
    "py_split ''alias'' \<noteq> []" "py_split ''malformed'' \<noteq> []"
    by code_simp+
  have "py_split (case find (\<lambda>cmd. py_in cmd s) [''export'', ''echo'', ''set'', ''alias''] of
             Some cmd \<Rightarrow> cmd | None \<Rightarrow> ''malformed'') \<noteq> []"
    using lit by (simp split: option.splits)
  then show ?thesis using False s sp w lit(1)
    by (simp add: extract_command_def Let_def del: find.simps)
qed

lemma zsh_records_have_token: "\<forall>r \<in> set (zsh_records f df cf raw). py_split (fst r) \<noteq> []"
proof -
  have "py_split (extract_command (py_strip x) f) \<noteq> []" if "py_strip x \<noteq> []" for x
    using that extract_command_has_token py_strip_has_nonspace by blast
  then show ?thesis
    by (auto simp: zsh_line_def zsh_records_def Let_def py_int_group
        split: option.splits if_splits)
qed

lemma bash_line_has_token:
  assumes "\<forall>r \<in> set (snd st). py_split (fst r) \<noteq> []"
    and "bash_line now f df cf st raw = Inr st'"
  shows "\<forall>r \<in> set (snd st'). py_split (fst r) \<noteq> []"
proof -
  obtain p h where st: "st = (p, h)" by (cases st)
  have "py_split (extract_command (py_strip raw) f) \<noteq> []" if "py_strip raw \<noteq> []"
    using that extract_command_has_token py_strip_has_nonspace by blast
  then show ?thesis using assms st
    by (auto simp: bash_line_cases posthoc_filters_filter split: if_splits)
qed

lemma run_lines_invariant:
  assumes "I st" and "\<And>s raw s'. I s \<Longrightarrow> step s raw = Inr s' \<Longrightarrow> I s'"
    and "run_lines step st lines = Inr st'"
  shows "I st'"
  using assms(1, 3)
proof (induction lines arbitrary: st)
  case Nil
  then show ?case by simp
next
  case (Cons raw lines)
  show ?case
  proof (cases "step st raw")
    case (Inl e)
    then show ?thesis using Cons.prems(2) by simp
  next
    case (Inr s')
    have "I s'" using assms(2) [OF Cons.prems(1) Inr] .
    then show ?thesis using Cons.IH [of s'] Cons.prems(2) Inr by simp
  qed
qed

lemma parsed_records_have_token:
  "\<forall>r \<in> set (parse_history now lines full shell df cf). py_split (fst r) \<noteq> []"
proof -
  have z: "\<forall>r \<in> set (parse_zsh_history lines full df cf). py_split (fst r) \<noteq> []"
    using zsh_records_have_token by (auto simp: parse_zsh_records)
  have b: "\<forall>r \<in> set (parse_bash_history now lines full df cf). py_split (fst r) \<noteq> []"
  proof (cases "run_lines (bash_line now full df cf) (None, []) lines")
    case (Inl e)
    then show ?thesis by (simp add: parse_bash_history_def)
  next
    case (Inr st')
    have "\<forall>r \<in> set (snd st'). py_split (fst r) \<noteq> []"
    proof (rule run_lines_invariant [where I = "\<lambda>s. \<forall>r \<in> set (snd s). py_split (fst r) \<noteq> []",
          OF _ _ Inr])
      show "\<forall>r \<in> set (snd (None :: int option, [] :: history_record list)).
              py_split (fst r) \<noteq> []"
        by simp
    next
      fix s raw s'
      assume "\<forall>r \<in> set (snd s). py_split (fst r) \<noteq> []"
        and "bash_line now full df cf s raw = Inr s'"
      then show "\<forall>r \<in> set (snd s'). py_split (fst r) \<noteq> []" by (rule bash_line_has_token)
    qed
    then show ?thesis using Inr by (simp add: parse_bash_history_def)
  qed
  show ?thesis using z b by (simp add: parse_history_def Let_def)
qed

text \<open>
  C8. On a record sequence in which every command has a leading token (as every record the
  parsers emit has), the exclusion filter returns exactly the records whose leading token is
  not in the exclusion list, in both modes alike; the result is a subsequence of the input,
  and filtering a parsed history never raises.
\<close>

theorem filter_commands_by_leading_token:
  assumes "\<forall>r \<in> set h. py_split (fst r) \<noteq> []"
  shows "filter_commands h ex = Inr (filter (\<lambda>r. hd (py_split (fst r)) \<notin> set ex) h)
    \<and> subseq (filter (\<lambda>r. hd (py_split (fst r)) \<notin> set ex) h) h
    \<and> filter_commands (parse_history now lines full shell df cf) ex
        = Inr (filter (\<lambda>r. hd (py_split (fst r)) \<notin> set ex)
                 (parse_history now lines full shell df cf))"
proof -
  have e: "filter (\<lambda>r. hd (py_split (fst r)) \<notin> set []) xs = xs" for xs :: "history_record list"
    by simp
  have 1: "filter_commands xs ex = Inr (filter (\<lambda>r. hd (py_split (fst r)) \<notin> set ex) xs)"
    if "\<forall>r \<in> set xs. py_split (fst r) \<noteq> []" for xs
  proof (cases "ex = []")
    case True
    then show ?thesis using e [of xs] by (simp add: filter_commands_def)
  next
    case False
    then show ?thesis using filter_loop_filter [OF that] by (simp add: filter_commands_def)
  qed
  show ?thesis using 1 [OF assms] 1 [OF parsed_records_have_token] by simp
qed

theorem filter_commands_by_leading_token_witness:
  "filter_commands [(''ls -la'', 1), (''pwd'', 2), (''lsx'', 3), (''ls'', 4)] [''ls'']
     = Inr [(''pwd'', 2), (''lsx'', 3)]
   \<and> subseq [(''pwd'', 2), (''lsx'', 3 :: int)]
       [(''ls -la'', 1), (''pwd'', 2), (''lsx'', 3), (''ls'', 4)]
   \<and> filter_commands (parse_history 7 [''ls -la'', ''pwd'', ''ls''] True (Some ''bash'') None None)
       [''ls''] = Inr [(''pwd'', 7)]"
proof -
  let ?h = "[(''ls -la'', 1), (''pwd'', 2), (''lsx'', 3), (''ls'', 4)] :: history_record list"
  have a: "\<forall>r \<in> set ?h. py_split (fst r) \<noteq> []" by code_simp
  have b: "filter (\<lambda>r. hd (py_split (fst r)) \<notin> set [''ls'']) ?h = [(''pwd'', 2), (''lsx'', 3)]"
    by code_simp
  have c: "parse_history 7 [''ls -la'', ''pwd'', ''ls''] True (Some ''bash'') None None
      = [(''ls -la'', 7), (''pwd'', 7), (''ls'', 7)]"
    by code_simp
  have d: "filter (\<lambda>r. hd (py_split (fst r)) \<notin> set [''ls''])
      [(''ls -la'', 7 :: int), (''pwd'', 7), (''ls'', 7)] = [(''pwd'', 7)]"
    by code_simp
  show ?thesis
    using filter_commands_by_leading_token [OF a, of "[''ls'']" 7 "[''ls -la'', ''pwd'', ''ls'']"
        True "Some ''bash''" None None]
    unfolding b c d by simp
qed

section \<open>Aliases\<close>

















lemma py_join_Cons:
  "py_join sep (p # ps) = p @ (if ps = [] then [] else sep @ py_join sep ps)"
  by (cases ps) simp_all



section \<open>Tally tables\<close>

lemma map_of_bump:
  "map_of (bump al k) c = (if c = k then Some (count_of al k + 1) else map_of al c)"
  by (induction al) (auto simp: count_of_def)

lemma count_of_bump: "count_of (bump al k) c = count_of al c + (if c = k then 1 else 0)"
  by (simp add: count_of_def map_of_bump)

lemma keys_bump: "fst ` set (bump al k) = insert k (fst ` set al)"
  by (induction al) force+

lemma distinct_bump: "distinct (map fst al) \<Longrightarrow> distinct (map fst (bump al k))"
  by (induction al) (auto simp: keys_bump)

lemma positive_bump:
  "\<forall>c n. map_of al c = Some n \<longrightarrow> 0 < n \<Longrightarrow> \<forall>c n. map_of (bump al k) c = Some n \<longrightarrow> 0 < n"
  by (simp add: map_of_bump)

lemma foldl_bump:
  assumes "distinct (map fst al)" and "\<forall>c n. map_of al c = Some n \<longrightarrow> 0 < n"
  shows "distinct (map fst (foldl bump al ks))
    \<and> (\<forall>c n. map_of (foldl bump al ks) c = Some n \<longrightarrow> 0 < n)
    \<and> (\<forall>c. count_of (foldl bump al ks) c = count_of al c + count_list ks c)"
  using assms
proof (induction ks arbitrary: al)
  case Nil
  then show ?case by simp
next
  case (Cons k ks)
  have "distinct (map fst (bump al k))" using Cons.prems(1) by (rule distinct_bump)
  moreover have "\<forall>c n. map_of (bump al k) c = Some n \<longrightarrow> 0 < n"
    using Cons.prems(2) by (rule positive_bump)
  ultimately show ?case
    using Cons.IH [of "bump al k"] by (auto simp: count_of_bump)
qed

lemma foldl_if_bump:
  "foldl (\<lambda>a j. if P j then bump a (g j) else a) a js = foldl bump a (map g (filter P js))"
  by (induction js arbitrary: a) simp_all

lemma foldl_if_foldl_bump:
  "foldl (\<lambda>a x. if Q x then foldl bump a (K x) else a) a xs
     = foldl bump a (concat (map K (filter Q xs)))"
  by (induction xs arbitrary: a) simp_all

lemma enumerate_nth: "enumerate 0 xs = map (\<lambda>i. (i, xs ! i)) [0..<length xs]"
  using enumerate_map_upt [of 0 "\<lambda>i. xs ! i" "length xs"] by (simp add: map_nth)

lemma neighbours_keys:
  "neighbours sh target w i (snd (sh ! i)) corr = foldl bump corr (neighbour_keys sh target w i)"
proof -
  have "(\<lambda>corr j. if i \<noteq> j then
                (let other_cmd = fst (sh ! j); other_time = snd (sh ! j)
                 in if \<bar>other_time - snd (sh ! i)\<bar> \<le> w \<and> other_cmd \<noteq> target
                    then bump corr other_cmd else corr)
              else corr)
      = (\<lambda>corr j. if i \<noteq> j \<and> \<bar>snd (sh ! j) - snd (sh ! i)\<bar> \<le> w \<and> fst (sh ! j) \<noteq> target
                   then bump corr (fst (sh ! j)) else corr)"
    by (intro ext) (simp add: Let_def)
  then show ?thesis
    unfolding neighbours_def neighbour_keys_def window_def by (simp only: foldl_if_bump)
qed

lemma correlations_keys:
  "get_command_correlations h target w
     = foldl bump []
         (concat (map (neighbour_keys (sort_key snd h) target w)
            (filter (\<lambda>i. fst (sort_key snd h ! i) = target) [0..<length h])))"
proof -
  let ?sh = "sort_key snd h"
  have "get_command_correlations h target w
      = foldl (\<lambda>corr i. if fst (?sh ! i) = target
                         then neighbours ?sh target w i (snd (?sh ! i)) corr else corr)
          [] [0..<length ?sh]"
    by (simp add: get_command_correlations_def Let_def enumerate_nth foldl_map case_prod_beta
        cong: if_cong)
  also have "\<dots> = foldl (\<lambda>corr i. if fst (?sh ! i) = target
                         then foldl bump corr (neighbour_keys ?sh target w i) else corr)
          [] [0..<length ?sh]"
    by (simp only: neighbours_keys)
  also have "\<dots> = foldl bump []
         (concat (map (neighbour_keys ?sh target w)
            (filter (\<lambda>i. fst (?sh ! i) = target) [0..<length ?sh])))"
    by (rule foldl_if_foldl_bump)
  finally show ?thesis by simp
qed

section \<open>Counting the tallied neighbours\<close>

lemma count_list_map_filter: "count_list (map g js) c = length (filter (\<lambda>j. g j = c) js)"
  by (induction js) simp_all

lemma set_window: "set (window sh i) = {j. i \<le> j + 10 \<and> j \<le> i + 10 \<and> j < length sh}"
  by (auto simp: window_def)

lemma count_neighbour_keys:
  assumes "i < length sh" and "fst (sh ! i) = target"
  shows "count_list (neighbour_keys sh target w i) c
           = card {j. tallied_pair sh target w i j \<and> fst (sh ! j) = c}"
proof -
  let ?P = "\<lambda>j. (i \<noteq> j \<and> \<bar>snd (sh ! j) - snd (sh ! i)\<bar> \<le> w \<and> fst (sh ! j) \<noteq> target)
                \<and> fst (sh ! j) = c"
  have d: "distinct (window sh i)" by (simp add: window_def)
  have "count_list (neighbour_keys sh target w i) c = length (filter ?P (window sh i))"
    by (simp add: neighbour_keys_def count_list_map_filter conj_commute)
  also have "\<dots> = card ({j. ?P j} \<inter> set (window sh i))"
    using d by (rule distinct_length_filter)
  also have "{j. ?P j} \<inter> set (window sh i)
      = {j. tallied_pair sh target w i j \<and> fst (sh ! j) = c}"
    using assms by (auto simp: set_window tallied_pair_def)
  finally show ?thesis .
qed

lemma count_all_keys:
  "count_list
     (concat (map (neighbour_keys sh target w)
        (filter (\<lambda>i. fst (sh ! i) = target) [0..<length sh]))) c
   = tally sh target w c"
proof -
  let ?A = "{i. i < length sh \<and> fst (sh ! i) = target}"
  let ?B = "\<lambda>i. {j. tallied_pair sh target w i j \<and> fst (sh ! j) = c}"
  let ?is = "filter (\<lambda>i. fst (sh ! i) = target) [0..<length sh]"
  have dis: "distinct ?is" by simp
  have set_is: "set ?is = ?A" by auto
  have finA: "finite ?A" by simp
  have finB: "finite (?B i)" for i
  proof (rule finite_subset)
    show "?B i \<subseteq> {..<length sh}" by (auto simp: tallied_pair_def)
    show "finite {..<length sh}" by simp
  qed
  have "count_list (concat (map (neighbour_keys sh target w) ?is)) c
      = sum_list (map (\<lambda>i. count_list (neighbour_keys sh target w i) c) ?is)"
    by (simp add: count_list_concat comp_def)
  also have "\<dots> = sum (\<lambda>i. count_list (neighbour_keys sh target w i) c) (set ?is)"
    using dis by (rule sum_list_distinct_conv_sum_set)
  also have "\<dots> = sum (\<lambda>i. card (?B i)) ?A"
    unfolding set_is by (rule sum.cong) (simp_all add: count_neighbour_keys)
  also have "\<dots> = card (SIGMA i:?A. ?B i)"
    using finA finB by (simp add: card_SigmaI)
  also have "(SIGMA i:?A. ?B i) = {(i, j). tallied_pair sh target w i j \<and> fst (sh ! j) = c}"
    by (auto simp: tallied_pair_def)
  finally show ?thesis by (simp add: tally_def)
qed

lemma map_of_count_of:
  assumes "\<forall>c n. map_of al c = Some n \<longrightarrow> 0 < n"
  shows "map_of al c = (if count_of al c = 0 then None else Some (count_of al c))"
  using assms by (cases "map_of al c") (auto simp: count_of_def)

lemma correlations_table:
  "distinct (map fst (get_command_correlations h target w))
   \<and> map_of (get_command_correlations h target w) c
       = (if tally (sort_key snd h) target w c = 0 then None
          else Some (tally (sort_key snd h) target w c))"
proof -
  let ?sh = "sort_key snd h"
  let ?ks = "concat (map (neighbour_keys ?sh target w)
            (filter (\<lambda>i. fst (?sh ! i) = target) [0..<length ?sh]))"
  have k: "get_command_correlations h target w = foldl bump [] ?ks"
    by (simp add: correlations_keys)
  have f: "distinct (map fst (foldl bump [] ?ks))
    \<and> (\<forall>c n. map_of (foldl bump [] ?ks) c = Some n \<longrightarrow> 0 < n)
    \<and> (\<forall>c. count_of (foldl bump [] ?ks) c = count_of [] c + count_list ?ks c)"
    by (rule foldl_bump) simp_all
  have c: "count_of (foldl bump [] ?ks) c = tally ?sh target w c"
    using f count_all_keys [of ?sh target w c] by (simp add: count_of_def)
  show ?thesis
    unfolding k using f map_of_count_of [of "foldl bump [] ?ks" c] c by simp
qed

section \<open>The reported correlations\<close>

lemma mset_sorted_reverse: "mset (sorted_reverse key xs) = mset xs"
  by (simp add: sorted_reverse_def)

lemma set_sorted_reverse: "set (sorted_reverse key xs) = set xs"
  by (simp add: sorted_reverse_def)

lemma length_sorted_reverse: "length (sorted_reverse key xs) = length xs"
  by (simp add: sorted_reverse_def)

lemma distinct_keys_sorted_reverse:
  "distinct (map f (sorted_reverse key xs)) \<longleftrightarrow> distinct (map f xs)"
proof -
  have "mset (map f (sorted_reverse key xs)) = mset (map f xs)"
    by (simp add: mset_sorted_reverse)
  then show ?thesis by (rule mset_eq_imp_distinct_iff)
qed

lemma descending_sorted_reverse:
  "sorted_wrt (\<lambda>a b. b \<le> a) (map key (sorted_reverse key xs))"
proof -
  have s: "sorted (map key (sort_key key (rev xs)))" by (rule sorted_sort_key)
  have "sorted_wrt (\<lambda>a b. b \<le> a) (rev (map key (sort_key key (rev xs))))"
    unfolding sorted_wrt_rev using s .
  then show ?thesis by (simp add: sorted_reverse_def rev_map)
qed

lemma sorted_wrt_take_drop:
  assumes "sorted_wrt R xs"
  shows "sorted_wrt R (take k xs) \<and> (\<forall>x \<in> set (take k xs). \<forall>y \<in> set (drop k xs). R x y)"
proof -
  have "sorted_wrt R (take k xs @ drop k xs)" using assms by simp
  then show ?thesis unfolding sorted_wrt_append by blast
qed

lemma no_pairs_in_short_history:
  assumes "length sh \<le> 1"
  shows "tally sh target w c = 0"
proof -
  have "{(i, j). tallied_pair sh target w i j \<and> fst (sh ! j) = c} = {}"
    using assms by (auto simp: tallied_pair_def)
  then show ?thesis unfolding tally_def by (simp only: card.empty)
qed

lemma empty_table: "(\<forall>c. map_of al c = None) \<Longrightarrow> al = []"
  by (cases al) (auto split: if_splits)

lemma top_correlations_take:
  "top_correlations h target
     = take 5 (sorted_reverse snd (get_command_correlations h target 300))"
proof (cases "1 < length h")
  case True
  then show ?thesis
    by (auto simp: top_correlations_def Let_def sorted_reverse_def)
next
  case False
  then have "length (sort_key snd h) \<le> 1" by simp
  then have "\<forall>c. map_of (get_command_correlations h target 300) c = None"
    using correlations_table [of h target 300] no_pairs_in_short_history by simp
  then have "get_command_correlations h target 300 = []" by (rule empty_table)
  then show ?thesis using False by (simp add: top_correlations_def sorted_reverse_def)
qed

lemma top_of_table:
  fixes al :: "(string \<times> nat) list" and T :: "string \<Rightarrow> nat"
  assumes dc: "distinct (map fst al)"
    and mem: "\<And>c n. (c, n) \<in> set al \<longleftrightarrow> (n = T c \<and> 0 < n)"
  shows "distinct (map fst (take k (sorted_reverse snd al)))"
    and "length (take k (sorted_reverse snd al)) = min k (card {c. 0 < T c})"
    and "\<forall>r \<in> set (take k (sorted_reverse snd al)). snd r = T (fst r) \<and> 0 < snd r"
    and "sorted_wrt (\<lambda>a b. b \<le> a) (map snd (take k (sorted_reverse snd al)))"
    and "\<forall>c. 0 < T c \<and> c \<notin> fst ` set (take k (sorted_reverse snd al))
           \<longrightarrow> (\<forall>r \<in> set (take k (sorted_reverse snd al)). T c \<le> snd r)"
proof -
  define S where "S = sorted_reverse snd al"
  have setS: "set S = set al" unfolding S_def by (rule set_sorted_reverse)
  have lenS: "length S = length al" unfolding S_def by (rule length_sorted_reverse)
  have dS: "distinct (map fst S)"
    unfolding S_def using dc by (simp only: distinct_keys_sorted_reverse)
  have "distinct (take k (map fst S))" using dS by (rule distinct_take)
  then show "distinct (map fst (take k (sorted_reverse snd al)))"
    unfolding S_def [symmetric] by (simp only: take_map)
  have keys: "fst ` set al = {c. 0 < T c}"
  proof (rule set_eqI)
    fix c
    show "c \<in> fst ` set al \<longleftrightarrow> c \<in> {c. 0 < T c}"
    proof
      assume "c \<in> fst ` set al"
      then obtain n where "(c, n) \<in> set al" by force
      then show "c \<in> {c. 0 < T c}" using mem [of c n] by simp
    next
      assume "c \<in> {c. 0 < T c}"
      then have "(c, T c) \<in> set al" using mem [of c "T c"] by simp
      then show "c \<in> fst ` set al" by force
    qed
  qed
  have "card (set (map fst al)) = length (map fst al)" using dc by (rule distinct_card)
  then have card: "card {c. 0 < T c} = length al" using keys by simp
  show "length (take k (sorted_reverse snd al)) = min k (card {c. 0 < T c})"
    unfolding S_def [symmetric] card using lenS by (simp add: min.commute)
  have sub: "set (take k S) \<subseteq> set al" using set_take_subset [of k S] setS by simp
  show "\<forall>r \<in> set (take k (sorted_reverse snd al)). snd r = T (fst r) \<and> 0 < snd r"
    unfolding S_def [symmetric]
  proof
    fix r assume "r \<in> set (take k S)"
    then have "(fst r, snd r) \<in> set al" using sub by auto
    then show "snd r = T (fst r) \<and> 0 < snd r" using mem [of "fst r" "snd r"] by simp
  qed
  have "sorted_wrt (\<lambda>a b. b \<le> a) (map snd S)"
    unfolding S_def by (rule descending_sorted_reverse)
  then have desc: "sorted_wrt (\<lambda>a b. snd b \<le> snd a) S" by (simp only: sorted_wrt_map)
  have td: "sorted_wrt (\<lambda>a b. snd b \<le> snd a) (take k S)
      \<and> (\<forall>x \<in> set (take k S). \<forall>y \<in> set (drop k S). snd y \<le> snd x)"
    using desc by (rule sorted_wrt_take_drop)
  then have "sorted_wrt (\<lambda>a b. snd b \<le> snd a) (take k S)" by (rule conjunct1)
  then show "sorted_wrt (\<lambda>a b. b \<le> a) (map snd (take k (sorted_reverse snd al)))"
    unfolding S_def [symmetric] by (simp only: sorted_wrt_map)
  show "\<forall>c. 0 < T c \<and> c \<notin> fst ` set (take k (sorted_reverse snd al))
           \<longrightarrow> (\<forall>r \<in> set (take k (sorted_reverse snd al)). T c \<le> snd r)"
    unfolding S_def [symmetric]
  proof (intro allI impI ballI)
    fix c r
    assume a: "0 < T c \<and> c \<notin> fst ` set (take k S)" and r: "r \<in> set (take k S)"
    have "(c, T c) \<in> set al" using a mem [of c "T c"] by simp
    then have "(c, T c) \<in> set (take k S @ drop k S)" using setS by simp
    then have "(c, T c) \<in> set (take k S) \<or> (c, T c) \<in> set (drop k S)"
      by (simp only: set_append Un_iff)
    moreover have "(c, T c) \<notin> set (take k S)"
    proof
      assume "(c, T c) \<in> set (take k S)"
      then have "fst (c, T c) \<in> fst ` set (take k S)" by (rule imageI)
      then show False using a by simp
    qed
    ultimately have "(c, T c) \<in> set (drop k S)" by blast
    then have "snd (c, T c) \<le> snd r" using td r by blast
    then show "T c \<le> snd r" by simp
  qed
qed

lemma correlations_members:
  "(c, n) \<in> set (get_command_correlations h target w)
     \<longleftrightarrow> (n = tally (sort_key snd h) target w c \<and> 0 < n)"
proof -
  have dc: "distinct (map fst (get_command_correlations h target w))"
    using correlations_table [of h target w] by (rule conjunct1)
  have mo: "map_of (get_command_correlations h target w) c
       = (if tally (sort_key snd h) target w c = 0 then None
          else Some (tally (sort_key snd h) target w c))"
    using correlations_table [of h target w c] by (rule conjunct2)
  show ?thesis
    using map_of_eq_Some_iff [OF dc, of c n] mo by (auto split: if_splits)
qed

text \<open>
  C4. The records are sorted by timestamp ascending (a stable sort, so nothing is lost or
  added). The tally table holds each command once, with the number of pairs of an occurrence
  of the target at position \<open>i\<close> and a record at a position \<open>j\<close> other than \<open>i\<close> between
  \<open>i - 10\<close> and \<open>i + 10\<close> whose timestamp differs by at most the window (the bound included)
  and whose command is not the target; commands with no such pair are absent. The report
  (window 300) holds at most five of the tallied commands with their tallies, in descending
  order of tally, and no tallied command left out has a larger tally than a reported one.
\<close>

theorem correlations_are_windowed_tallies:
  "sorted (map snd (sort_key snd h)) \<and> mset (sort_key snd h) = mset h
   \<and> distinct (map fst (get_command_correlations h target w))
   \<and> map_of (get_command_correlations h target w) c
       = (if tally (sort_key snd h) target w c = 0 then None
          else Some (tally (sort_key snd h) target w c))
   \<and> distinct (map fst (top_correlations h target))
   \<and> length (top_correlations h target)
       = min 5 (card {c. 0 < tally (sort_key snd h) target 300 c})
   \<and> (\<forall>r \<in> set (top_correlations h target).
         snd r = tally (sort_key snd h) target 300 (fst r) \<and> 0 < snd r)
   \<and> sorted_wrt (\<lambda>a b. b \<le> a) (map snd (top_correlations h target))
   \<and> (\<forall>c. 0 < tally (sort_key snd h) target 300 c \<and> c \<notin> fst ` set (top_correlations h target)
         \<longrightarrow> (\<forall>r \<in> set (top_correlations h target).
                tally (sort_key snd h) target 300 c \<le> snd r))"
proof -
  have s: "sorted (map snd (sort_key snd h)) \<and> mset (sort_key snd h) = mset h" by simp
  have dc: "distinct (map fst (get_command_correlations h target 300))"
    using correlations_table [of h target 300] by (rule conjunct1)
  note top = top_of_table [OF dc correlations_members, of 5]
  show ?thesis
    unfolding top_correlations_take
    using s correlations_table [of h target w c] top by (intro conjI) blast+
qed

theorem correlations_are_windowed_tallies_witness:
  "tally [(''git'', 1000), (''ls'', 1300)] ''git'' 300 ''ls'' = 1
   \<and> tally [(''git'', 1000), (''ls'', 1301)] ''git'' 300 ''ls'' = 0
   \<and> top_correlations
         [(''git'', 1000), (''ls'', 1300), (''cd'', 699), (''vim'', 700), (''git'', 1001)] ''git''
       = [(''ls'', 2), (''vim'', 1)]
   \<and> tally [(''cd'', 699), (''vim'', 700), (''git'', 1000), (''git'', 1001), (''ls'', 1300)]
         ''git'' 300 ''ls'' = 2
   \<and> tally [(''cd'', 699), (''vim'', 700), (''git'', 1000), (''git'', 1001), (''ls'', 1300)]
         ''git'' 300 ''cd'' = 0
   \<and> card {c. 0 < tally [(''cd'', 699), (''vim'', 700), (''git'', 1000), (''git'', 1001),
                            (''ls'', 1300)] ''git'' 300 c} = 2"
proof -
  let ?h1 = "[(''git'', 1000), (''ls'', 1300)] :: history_record list"
  let ?h2 = "[(''git'', 1000), (''ls'', 1301)] :: history_record list"
  let ?h5 = "[(''git'', 1000), (''ls'', 1300), (''cd'', 699), (''vim'', 700), (''git'', 1001)]
               :: history_record list"
  let ?s5 = "[(''cd'', 699), (''vim'', 700), (''git'', 1000), (''git'', 1001), (''ls'', 1300)]
               :: history_record list"
  have s1: "sort_key snd ?h1 = ?h1" and s2: "sort_key snd ?h2 = ?h2"
    and s5: "sort_key snd ?h5 = ?s5"
    by code_simp+
  have g1: "map_of (get_command_correlations ?h1 ''git'' 300) ''ls'' = Some 1" by code_simp
  have g2: "map_of (get_command_correlations ?h2 ''git'' 300) ''ls'' = None" by code_simp
  have g5: "map_of (get_command_correlations ?h5 ''git'' 300) ''ls'' = Some 2" by code_simp
  have g5': "map_of (get_command_correlations ?h5 ''git'' 300) ''cd'' = None" by code_simp
  have t5: "top_correlations ?h5 ''git'' = [(''ls'', 2), (''vim'', 1)]" by code_simp
  have a: "tally ?h1 ''git'' 300 ''ls'' = 1"
    using correlations_are_windowed_tallies [of ?h1 "''git''" 300 "''ls''"]
    unfolding s1 g1 by (simp split: if_splits)
  have b: "tally ?h2 ''git'' 300 ''ls'' = 0"
    using correlations_are_windowed_tallies [of ?h2 "''git''" 300 "''ls''"]
    unfolding s2 g2 by (simp split: if_splits)
  have c: "tally ?s5 ''git'' 300 ''ls'' = 2"
    using correlations_are_windowed_tallies [of ?h5 "''git''" 300 "''ls''"]
    unfolding s5 g5 by (simp split: if_splits)
  have d: "tally ?s5 ''git'' 300 ''cd'' = 0"
    using correlations_are_windowed_tallies [of ?h5 "''git''" 300 "''cd''"]
    unfolding s5 g5' by (simp split: if_splits)
  have "length (top_correlations ?h5 ''git'') = min 5 (card {c. 0 < tally ?s5 ''git'' 300 c})"
    using correlations_are_windowed_tallies [of ?h5 "''git''" 300 "''ls''"]
    unfolding s5 by blast
  then have e: "card {c. 0 < tally ?s5 ''git'' 300 c} = 2"
    unfolding t5 by simp
  show ?thesis using a b c d e t5 by blast
qed

end
